theory Spec2Isabelle
  imports Complex_Main
begin

section \<open>JavaScript numbers\<close>

text \<open>
  The engine computes with JavaScript numbers. Finite values are rationals and the
  three non-finite values are kept, because a division by zero in the source produces
  them instead of raising. The operations \<open>jadd\<close>, \<open>jmul\<close> and \<open>jdiv\<close> are exact; the
  rounding of doubles is modelled by the operations of the next subsection, which the
  CPU average of the alerting step uses.
  Every divisor that can be zero in the engine is a length, a sum of non-negative
  numbers or a rounded non-negative number, so a zero divisor is always +0.
\<close>

datatype jsnum = Num rat | NaN | PInf | NInf

fun jadd :: "jsnum \<Rightarrow> jsnum \<Rightarrow> jsnum" where
  "jadd (Num a) (Num b) = Num (a + b)"
| "jadd (Num a) y = y"
| "jadd NaN y = NaN"
| "jadd PInf y = (if y = NaN \<or> y = NInf then NaN else PInf)"
| "jadd NInf y = (if y = NaN \<or> y = PInf then NaN else NInf)"

fun jmul :: "jsnum \<Rightarrow> rat \<Rightarrow> jsnum" where
  "jmul (Num a) c = Num (a * c)"
| "jmul NaN c = NaN"
| "jmul PInf c = (if 0 < c then PInf else if c < 0 then NInf else NaN)"
| "jmul NInf c = (if 0 < c then NInf else if c < 0 then PInf else NaN)"

fun jdiv :: "jsnum \<Rightarrow> rat \<Rightarrow> jsnum" where
  "jdiv (Num a) c =
     (if c \<noteq> 0 then Num (a / c)
      else if 0 < a then PInf else if a < 0 then NInf else NaN)"
| "jdiv NaN c = NaN"
| "jdiv PInf c = (if 0 \<le> c then PInf else NInf)"
| "jdiv NInf c = (if 0 \<le> c then NInf else PInf)"

text \<open>\<open>Math.round\<close>: the nearest integer, halves rounded towards plus infinity.\<close>

definition round_half_up :: "rat \<Rightarrow> int" where
  "round_half_up x = \<lfloor>x + 1 / 2\<rfloor>"

fun jround :: "jsnum \<Rightarrow> jsnum" where
  "jround (Num a) = Num (of_int (round_half_up a))"
| "jround x = x"

text \<open>\<open>x > c\<close> for a finite \<open>c\<close>: false when \<open>x\<close> is NaN.\<close>

fun jgt :: "jsnum \<Rightarrow> rat \<Rightarrow> bool" where
  "jgt (Num a) c = (c < a)"
| "jgt PInf c = True"
| "jgt NaN c = False"
| "jgt NInf c = False"

subsection \<open>Double arithmetic\<close>

text \<open>
  Where a decision of the engine depends on the last bit of a sum, the arithmetic of
  IEEE 754 binary64 is modelled: every operation returns the exact result rounded to the
  nearest double, ties to the even significand, and overflows to infinity. A double is
  an integer multiple of \<open>2 ^ (e - 52)\<close>, where \<open>2 ^ e\<close> is the power of two at or below
  its magnitude; below \<open>2 ^ - 1022\<close> the step stays \<open>2 ^ - 1074\<close>. The sign of zero is
  not modelled.
\<close>

fun bit_length :: "nat \<Rightarrow> nat" where
  "bit_length n = (if n = 0 then 0 else Suc (bit_length (n div 2)))"

declare bit_length.simps [simp del]

text \<open>The exponent \<open>e\<close> with \<open>2 ^ e \<le> x < 2 ^ (e + 1)\<close>, for a positive \<open>x\<close>.\<close>

definition floor_log2 :: "rat \<Rightarrow> int" where
  "floor_log2 x =
     (if 1 \<le> x then int (bit_length (nat \<lfloor>x\<rfloor>)) - 1
      else - int (bit_length (nat (\<lceil>1 / x\<rceil> - 1))))"

definition pow2 :: "int \<Rightarrow> rat" where
  "pow2 k = (if 0 \<le> k then 2 ^ nat k else 1 / 2 ^ nat (- k))"

definition round_half_even :: "rat \<Rightarrow> int" where
  "round_half_even m =
     (let f = \<lfloor>m\<rfloor>; r = m - of_int f
      in if r < 1 / 2 then f else if 1 / 2 < r then f + 1
         else if even f then f else f + 1)"

definition binary64_pos :: "rat \<Rightarrow> jsnum" where
  "binary64_pos x =
     (let q = pow2 (max (floor_log2 x - 52) (- 1074));
          y = of_int (round_half_even (x / q)) * q
      in if pow2 1024 \<le> y then PInf else Num y)"

fun jneg :: "jsnum \<Rightarrow> jsnum" where
  "jneg (Num a) = Num (- a)"
| "jneg NaN = NaN"
| "jneg PInf = NInf"
| "jneg NInf = PInf"

text \<open>The double nearest to a rational.\<close>

definition binary64 :: "rat \<Rightarrow> jsnum" where
  "binary64 x =
     (if x = 0 then Num 0
      else if 0 < x then binary64_pos x
      else jneg (binary64_pos (- x)))"

text \<open>
  A stored number \<open>Num r\<close> is read as the double nearest to \<open>r\<close> (itself, when \<open>r\<close>
  is a double). \<open>dadd\<close> is \<open>x + y\<close> and \<open>ddiv\<close> is \<open>x / c\<close> on doubles.
\<close>

fun to_double :: "jsnum \<Rightarrow> jsnum" where
  "to_double (Num a) = binary64 a"
| "to_double x = x"

definition dadd :: "jsnum \<Rightarrow> jsnum \<Rightarrow> jsnum" where
  "dadd x y = to_double (jadd (to_double x) (to_double y))"

definition ddiv :: "jsnum \<Rightarrow> rat \<Rightarrow> jsnum" where
  "ddiv x c = to_double (jdiv (to_double x) c)"

section \<open>Data model\<close>

record PerformanceSnapshot =
  timestamp :: int
  cpuUsage :: jsnum
  memoryUsedMB :: int
  memoryTotalMB :: int
  snap_activeRequests :: int
  avgResponseTimeMs :: int
  errorRate :: nat
  modelSuccessRates :: "(string \<times> rat) list"

record ModelMetrics =
  totalCalls :: nat
  successCalls :: nat
  totalTimeMs :: rat
  lastUsed :: int

text \<open>
  What \<open>os.cpus()\<close>, \<open>os.totalmem()\<close> and \<open>os.freemem()\<close> return: per logical core the
  five time counters of \<open>cpu.times\<close> (in the order \<open>Object.values\<close> lists them), and
  two byte counts. \<open>os.cpus()\<close> is the empty array when the host gives no CPU information.
\<close>

record cpuTimes =
  user :: nat
  nice :: nat
  sys :: nat
  idle :: nat
  irq :: nat

record host =
  cpus :: "cpuTimes list"
  totalmem :: nat
  freemem :: nat

text \<open>
  The private fields of \<open>SelfPerformanceEngine\<close>. \<open>modelMetrics\<close> is an object used as
  a dictionary; it is an association list in insertion order, which is the order of
  \<open>Object.entries\<close> for provider names (names are taken not to be array indices or
  properties inherited from \<open>Object.prototype\<close>). \<open>monitorInterval\<close> holds the handle
  returned by \<open>setInterval\<close>, or \<open>None\<close> for \<open>null\<close>.
\<close>

record state =
  snapshots :: "PerformanceSnapshot list"
  modelMetrics :: "(string \<times> ModelMetrics) list"
  activeRequests :: int
  responseTimes :: "rat list"
  errors :: "int list"
  monitorInterval :: "nat option"

definition MAX_SNAPSHOTS :: nat where
  "MAX_SNAPSHOTS = 1000"

definition MONITOR_INTERVAL_MS :: nat where
  "MONITOR_INTERVAL_MS = 10000"

definition init :: state where
  "init = \<lparr>snapshots = [], modelMetrics = [], activeRequests = 0, responseTimes = [],
            errors = [], monitorInterval = None\<rparr>"

section \<open>Metrics store\<close>

definition trackRequestStart :: "state \<Rightarrow> state" where
  "trackRequestStart s = s\<lparr>activeRequests := activeRequests s + 1\<rparr>"

text \<open>
  \<open>now\<close> is the value of \<open>Date.now()\<close>; the two reads inside one call are taken to
  return the same millisecond.
\<close>

definition trackRequestEnd :: "rat \<Rightarrow> bool \<Rightarrow> int \<Rightarrow> state \<Rightarrow> state" where
  "trackRequestEnd durationMs success now s =
     (let pushed = responseTimes s @ [durationMs];
          errs = (if \<not> success then errors s @ [now] else errors s);
          kept = (if length pushed > 100 then tl pushed else pushed);
          cutoff = now - 60000
      in s\<lparr>activeRequests := max 0 (activeRequests s - 1),
            responseTimes := kept,
            errors := filter (\<lambda>t. t > cutoff) errs\<rparr>)"

text \<open>Assignment to a field of the entry stored under \<open>model\<close>.\<close>

definition modify :: "string \<Rightarrow> (ModelMetrics \<Rightarrow> ModelMetrics) \<Rightarrow>
    (string \<times> ModelMetrics) list \<Rightarrow> (string \<times> ModelMetrics) list" where
  "modify model f ms = map (\<lambda>(k, v). if k = model then (k, f v) else (k, v)) ms"

definition trackModelCall :: "string \<Rightarrow> bool \<Rightarrow> rat \<Rightarrow> int \<Rightarrow> state \<Rightarrow> state" where
  "trackModelCall model success durationMs now s =
     (let m0 = (if map_of (modelMetrics s) model = None
                then modelMetrics s @
                  [(model, \<lparr>totalCalls = 0, successCalls = 0, totalTimeMs = 0, lastUsed = 0\<rparr>)]
                else modelMetrics s);
          m1 = modify model (\<lambda>m. m\<lparr>totalCalls := totalCalls m + 1\<rparr>) m0;
          m2 = (if success then modify model (\<lambda>m. m\<lparr>successCalls := successCalls m + 1\<rparr>) m1
                else m1);
          m3 = modify model (\<lambda>m. m\<lparr>totalTimeMs := totalTimeMs m + durationMs\<rparr>) m2;
          m4 = modify model (\<lambda>m. m\<lparr>lastUsed := now\<rparr>) m3
      in s\<lparr>modelMetrics := m4\<rparr>)"

section \<open>Snapshot sampler\<close>

text \<open>The success rate stored in a snapshot: 0 for an entry without calls.\<close>

definition successRate :: "ModelMetrics \<Rightarrow> rat" where
  "successRate m =
     (if totalCalls m > 0 then of_nat (successCalls m) / of_nat (totalCalls m) else 0)"

definition cpuTotal :: "cpuTimes \<Rightarrow> nat" where
  "cpuTotal c = foldl (+) 0 [user c, nice c, sys c, idle c, irq c]"

definition hostCpuUsage :: "cpuTimes list \<Rightarrow> jsnum" where
  "hostCpuUsage cs =
     jdiv (foldl (\<lambda>acc cpu.
              jadd acc (jmul (jdiv (Num (of_nat (cpuTotal cpu) - of_nat (idle cpu)))
                                   (of_nat (cpuTotal cpu))) 100))
            (Num 0) cs)
          (of_nat (length cs))"

definition captureSnapshot :: "host \<Rightarrow> int \<Rightarrow> state \<Rightarrow> PerformanceSnapshot \<times> state" where
  "captureSnapshot h now s =
     (let cpuUsage = hostCpuUsage (cpus h);
          memTotal = (of_nat (totalmem h) :: rat) / (1024 * 1024);
          memFree = (of_nat (freemem h) :: rat) / (1024 * 1024);
          memUsed = memTotal - memFree;
          avgResponseTime =
            (if length (responseTimes s) > 0
             then foldl (+) 0 (responseTimes s) / of_nat (length (responseTimes s))
             else 0);
          errorRate = length (errors s);
          modelSuccessRates = map (\<lambda>(model, metrics). (model, successRate metrics))
                                  (modelMetrics s);
          snapshot = \<lparr>timestamp = now,
                      cpuUsage = jdiv (jround (jmul cpuUsage 10)) 10,
                      memoryUsedMB = round_half_up memUsed,
                      memoryTotalMB = round_half_up memTotal,
                      snap_activeRequests = activeRequests s,
                      avgResponseTimeMs = round_half_up avgResponseTime,
                      errorRate = errorRate,
                      modelSuccessRates = modelSuccessRates\<rparr>;
          pushed = snapshots s @ [snapshot];
          kept = (if length pushed > MAX_SNAPSHOTS then tl pushed else pushed)
      in (snapshot, s\<lparr>snapshots := kept\<rparr>))"

definition getCurrentMetrics :: "host \<Rightarrow> int \<Rightarrow> state \<Rightarrow> PerformanceSnapshot \<times> state" where
  "getCurrentMetrics h now s = captureSnapshot h now s"

text \<open>
  \<open>Array.prototype.slice(start)\<close>: a negative \<open>start\<close> counts from the end; the
  result is a fresh array and the receiver is not changed.
\<close>

definition slice :: "int \<Rightarrow> 'a list \<Rightarrow> 'a list" where
  "slice start xs =
     (let len = int (length xs);
          k = (if start < 0 then max (len + start) 0 else min start len)
      in drop (nat k) xs)"

definition getHistory :: "state \<Rightarrow> PerformanceSnapshot list \<times> state" where
  "getHistory s = (slice (- 50) (snapshots s), s)"

section \<open>Adaptive router\<close>

datatype taskType = Music | Video | Image | Voice

definition modelsByTask :: "taskType \<Rightarrow> string list" where
  "modelsByTask t =
     (case t of
        Music \<Rightarrow> [''suno-v3.5'', ''eleven-music-v2'', ''musicgen-large'']
      | Video \<Rightarrow> [''kling-3.0'', ''veo-3'', ''runway-gen3'']
      | Image \<Rightarrow> [''flux-1'', ''sdxl'', ''dalle-3'']
      | Voice \<Rightarrow> [''eleven-v3'', ''eleven-v2'', ''whisper''])"

text \<open>
  \<open>Array.prototype.sort\<close> with a comparator is stable. For a comparator that orders
  its arguments consistently the result is the one stable sorted arrangement, which
  insertion from the right computes: \<open>x\<close> stays in front of \<open>y\<close> unless the
  comparator is positive.
\<close>

fun insert_sorted :: "('a \<Rightarrow> 'a \<Rightarrow> rat) \<Rightarrow> 'a \<Rightarrow> 'a list \<Rightarrow> 'a list" where
  "insert_sorted cmp x [] = [x]"
| "insert_sorted cmp x (y # ys) =
     (if cmp x y \<le> 0 then x # y # ys else y # insert_sorted cmp x ys)"

definition sort_stable :: "('a \<Rightarrow> 'a \<Rightarrow> rat) \<Rightarrow> 'a list \<Rightarrow> 'a list" where
  "sort_stable cmp xs = foldr (insert_sorted cmp) xs []"

text \<open>
  The rate the comparator computes for a name, \<open>successCalls / (totalCalls || 1)\<close>.
  The comparator only sees names that passed the filter, so the entry exists; the
  \<open>None\<close> branch is never taken.
\<close>

definition routeRate :: "state \<Rightarrow> string \<Rightarrow> rat" where
  "routeRate s m =
     (case map_of (modelMetrics s) m of
        Some mm \<Rightarrow> of_nat (successCalls mm) /
                   of_nat (if totalCalls mm = 0 then 1 else totalCalls mm)
      | None \<Rightarrow> 0)"

text \<open>\<open>xs[0]\<close>: \<open>None\<close> stands for \<open>undefined\<close>.\<close>

definition first :: "'a list \<Rightarrow> 'a option" where
  "first xs = (case xs of [] \<Rightarrow> None | x # _ \<Rightarrow> Some x)"

text \<open>\<open>a || b\<close> on strings: \<open>undefined\<close> and the empty string are falsy.\<close>

definition or_else :: "string option \<Rightarrow> string option \<Rightarrow> string option" where
  "or_else a b = (case a of None \<Rightarrow> b | Some x \<Rightarrow> if x = [] then b else Some x)"

definition getBestModel :: "state \<Rightarrow> taskType \<Rightarrow> string option" where
  "getBestModel s taskType =
     (let candidates = modelsByTask taskType
      in or_else
           (first (sort_stable (\<lambda>a b. routeRate s b - routeRate s a)
                     (filter (\<lambda>m. map_of (modelMetrics s) m \<noteq> None) candidates)))
           (first candidates))"

section \<open>Alerting sink\<close>

text \<open>
  The warnings \<open>analyseAndAdapt\<close> writes with \<open>console.warn\<close>, in the order written.
  A warning carries the value the message is formatted from. The CPU average is
  computed in double arithmetic, as the source does: the readings are added from left to
  right and the sum is divided by their number, each step rounded.
\<close>

datatype warning =
  HighCpu jsnum
| HighMemory jsnum
| HighErrorRate rat
| LowPerformingModels "string list"

definition lowPerforming :: "ModelMetrics \<Rightarrow> bool" where
  "lowPerforming m \<longleftrightarrow>
     totalCalls m > 5 \<and> (of_nat (successCalls m) :: rat) / of_nat (totalCalls m) < 7 / 10"

definition analyseAndAdapt :: "state \<Rightarrow> warning list" where
  "analyseAndAdapt s =
     (let recent = slice (- 6) (snapshots s)
      in if length recent < 3 then []
         else
           let avgCPU = ddiv (foldl (\<lambda>a sn. dadd a (cpuUsage sn)) (Num 0) recent)
                             (of_nat (length recent));
               avgErrors = foldl (\<lambda>a sn. a + of_nat (errorRate sn)) (0 :: rat) recent /
                           of_nat (length recent);
               latest = recent ! (length recent - 1);
               avgMemPct = jmul (jdiv (Num (of_int (memoryUsedMB latest)))
                                      (of_int (memoryTotalMB latest))) 100;
               lowPerformingModels =
                 map fst (filter (\<lambda>(model, m). lowPerforming m) (modelMetrics s))
           in (if jgt avgCPU 85 then [HighCpu avgCPU] else []) @
              (if jgt avgMemPct 85 then [HighMemory avgMemPct] else []) @
              (if avgErrors > 5 then [HighErrorRate avgErrors] else []) @
              (if length lowPerformingModels > 0
               then [LowPerformingModels lowPerformingModels] else []))"

section \<open>Monitoring timer\<close>

text \<open>
  The interval timers of the Node.js event loop: \<open>setInterval\<close> registers a new
  repeating timer and returns its handle, \<open>clearInterval\<close> cancels the timer of the
  handle it is given. A timer fires for as long as its handle is in \<open>intervals\<close>.
\<close>

record runtime =
  intervals :: "nat list"
  nextHandle :: nat

definition setInterval :: "runtime \<Rightarrow> nat \<times> runtime" where
  "setInterval rt =
     (nextHandle rt,
      rt\<lparr>intervals := intervals rt @ [nextHandle rt], nextHandle := nextHandle rt + 1\<rparr>)"

definition clearInterval :: "nat \<Rightarrow> runtime \<Rightarrow> runtime" where
  "clearInterval h rt = rt\<lparr>intervals := removeAll h (intervals rt)\<rparr>"

definition startMonitoring :: "runtime \<times> state \<Rightarrow> runtime \<times> state" where
  "startMonitoring p =
     (case p of (rt, s) \<Rightarrow>
        (case setInterval rt of (h, rt') \<Rightarrow> (rt', s\<lparr>monitorInterval := Some h\<rparr>)))"

definition stopMonitoring :: "runtime \<times> state \<Rightarrow> runtime \<times> state" where
  "stopMonitoring p =
     (case p of (rt, s) \<Rightarrow>
        (case monitorInterval s of
           Some h \<Rightarrow> (clearInterval h rt, s\<lparr>monitorInterval := None\<rparr>)
         | None \<Rightarrow> (rt, s)))"

text \<open>The callback the timer runs every \<open>MONITOR_INTERVAL_MS\<close>.\<close>

definition monitorTick :: "host \<Rightarrow> int \<Rightarrow> state \<Rightarrow> warning list \<times> state" where
  "monitorTick h now s =
     (case captureSnapshot h now s of (snapshot, s') \<Rightarrow> (analyseAndAdapt s', s'))"

datatype lifecycle = StartMonitoring | StopMonitoring

fun lifecycle_step :: "runtime \<times> state \<Rightarrow> lifecycle \<Rightarrow> runtime \<times> state" where
  "lifecycle_step p StartMonitoring = startMonitoring p"
| "lifecycle_step p StopMonitoring = stopMonitoring p"

section \<open>Runs of the engine\<close>

text \<open>
  One call of a method of the engine, with the values it reads from its environment
  (the clock, the host).
\<close>

datatype event =
  TrackRequestStart
| TrackRequestEnd rat bool int
| TrackModelCall string bool rat int
| CaptureSnapshot host int
| GetCurrentMetrics host int
| GetHistory
| GetBestModel taskType
| MonitorTick host int

fun step :: "state \<Rightarrow> event \<Rightarrow> state" where
  "step s TrackRequestStart = trackRequestStart s"
| "step s (TrackRequestEnd durationMs success now) = trackRequestEnd durationMs success now s"
| "step s (TrackModelCall model success durationMs now) =
     trackModelCall model success durationMs now s"
| "step s (CaptureSnapshot h now) = snd (captureSnapshot h now s)"
| "step s (GetCurrentMetrics h now) = snd (getCurrentMetrics h now s)"
| "step s GetHistory = snd (getHistory s)"
| "step s (GetBestModel t) = s"
| "step s (MonitorTick h now) = snd (monitorTick h now s)"

definition run :: "event list \<Rightarrow> state" where
  "run evs = foldl step init evs"

section \<open>Auxiliary notions for the statements\<close>

text \<open>The durations a run passed to \<open>trackRequestEnd\<close>, in order.\<close>

fun durations :: "event list \<Rightarrow> rat list" where
  "durations [] = []"
| "durations (TrackRequestEnd durationMs success now # evs) = durationMs # durations evs"
| "durations (e # evs) = durations evs"

text \<open>
  The invariant of the engine: an entry of the metrics store has at least one call and
  no more successes than calls, provider names are stored once, and the counter and
  the two bounded buffers are within their bounds.
\<close>

definition wf :: "state \<Rightarrow> bool" where
  "wf s \<longleftrightarrow>
     (\<forall>(m, mm) \<in> set (modelMetrics s). successCalls mm \<le> totalCalls mm \<and> 0 < totalCalls mm) \<and>
     distinct (map fst (modelMetrics s)) \<and>
     0 \<le> activeRequests s \<and>
     length (snapshots s) \<le> MAX_SNAPSHOTS \<and>
     length (responseTimes s) \<le> 100"

text \<open>Concrete runs and hosts on which the statements below are instantiated.\<close>

definition fifo_events :: "event list" where
  "fifo_events = map (\<lambda>i. TrackRequestEnd (of_nat i) True 0) [0..<101]"

definition sample_events :: "event list" where
  "sample_events =
     [TrackRequestEnd 12 False 0, TrackModelCall ''x'' True 200 1,
      TrackModelCall ''x'' False 200 2]"

text \<open>
  The number of recorded calls and the success rate of a provider name, read from the
  metrics store (0 for a name without an entry).
\<close>

definition callsOf :: "state \<Rightarrow> string \<Rightarrow> nat" where
  "callsOf s m = (case map_of (modelMetrics s) m of None \<Rightarrow> 0 | Some mm \<Rightarrow> totalCalls mm)"

definition rateOf :: "state \<Rightarrow> string \<Rightarrow> rat" where
  "rateOf s m = (case map_of (modelMetrics s) m of None \<Rightarrow> 0 | Some mm \<Rightarrow> successRate mm)"

definition router_events :: "event list" where
  "router_events =
     [TrackModelCall ''suno-v3.5'' True 200 1, TrackModelCall ''suno-v3.5'' False 200 2,
      TrackModelCall ''suno-v3.5'' False 200 3, TrackModelCall ''suno-v3.5'' True 200 4,
      TrackModelCall ''suno-v3.5'' False 200 5,
      TrackModelCall ''eleven-music-v2'' True 300 6, TrackModelCall ''eleven-music-v2'' True 300 7,
      TrackModelCall ''eleven-music-v2'' False 300 8, TrackModelCall ''eleven-music-v2'' True 300 9,
      TrackModelCall ''eleven-music-v2'' True 300 10]"

text \<open>The mean of a non-empty list of finite numbers.\<close>

definition average :: "rat list \<Rightarrow> rat" where
  "average xs = sum_list xs / of_nat (length xs)"

text \<open>
  The mean of a list of readings as a JavaScript program computes it with \<open>reduce\<close>
  and a division: in double arithmetic, from left to right.
\<close>

definition double_mean :: "jsnum list \<Rightarrow> jsnum" where
  "double_mean xs = ddiv (foldl dadd (Num 0) xs) (of_nat (length xs))"

text \<open>The most recent \<open>n\<close> elements of a history, oldest first (all of them if fewer).\<close>

definition most_recent :: "nat \<Rightarrow> 'a list \<Rightarrow> 'a list" where
  "most_recent n xs = rev (take n (rev xs))"

definition busy_host :: host where
  "busy_host = \<lparr>cpus = [\<lparr>user = 90, nice = 0, sys = 5, idle = 5, irq = 0\<rparr>],
                 totalmem = 1048576000, freemem = 104857600\<rparr>"

definition alert_events :: "event list" where
  "alert_events =
     [TrackRequestEnd 40 False 0, TrackRequestEnd 40 False 0, TrackRequestEnd 40 False 0,
      TrackRequestEnd 40 False 0, TrackRequestEnd 40 False 0, TrackRequestEnd 40 False 0,
      CaptureSnapshot busy_host 1, CaptureSnapshot busy_host 2, CaptureSnapshot busy_host 3]"

definition low_events :: "event list" where
  "low_events =
     [TrackModelCall ''x'' True 200 1, TrackModelCall ''x'' True 200 2,
      TrackModelCall ''x'' True 200 3, TrackModelCall ''x'' True 200 4,
      TrackModelCall ''x'' False 200 5, TrackModelCall ''x'' False 200 6,
      TrackModelCall ''y'' False 500 7, TrackModelCall ''y'' False 500 8,
      TrackModelCall ''y'' False 500 9, TrackModelCall ''y'' False 500 10,
      TrackModelCall ''y'' False 500 11,
      CaptureSnapshot busy_host 12, CaptureSnapshot busy_host 13, CaptureSnapshot busy_host 14]"


definition blind_host :: host where
  "blind_host = \<lparr>cpus = [], totalmem = 1048576000, freemem = 104857600\<rparr>"

definition blind_events :: "event list" where
  "blind_events =
     [CaptureSnapshot blind_host 1, CaptureSnapshot blind_host 2, CaptureSnapshot blind_host 3]"




text \<open>The times at which a run recorded a failed request, in order.\<close>

fun failureTimes :: "event list \<Rightarrow> int list" where
  "failureTimes [] = []"
| "failureTimes (TrackRequestEnd durationMs success now # evs) =
     (if success then failureTimes evs else now # failureTimes evs)"
| "failureTimes (e # evs) = failureTimes evs"

definition stale_events :: "event list" where
  "stale_events = [TrackRequestStart, TrackRequestEnd 100 False 0]"

section \<open>Verification\<close>

subsection \<open>Runs, frames and the invariant\<close>

lemma run_Nil: "run [] = init"
  by (simp add: run_def)

lemma run_snoc: "run (evs @ [e]) = step (run evs) e"
  by (simp add: run_def)

lemma durations_append: "durations (xs @ ys) = durations xs @ durations ys"
  by (induction xs rule: durations.induct) simp_all

lemma captureSnapshot_frame:
  "modelMetrics (snd (captureSnapshot h now s)) = modelMetrics s"
  "activeRequests (snd (captureSnapshot h now s)) = activeRequests s"
  "responseTimes (snd (captureSnapshot h now s)) = responseTimes s"
  "errors (snd (captureSnapshot h now s)) = errors s"
  "monitorInterval (snd (captureSnapshot h now s)) = monitorInterval s"
  by (simp_all add: captureSnapshot_def Let_def)

lemma captureSnapshot_length:
  "length (snapshots s) \<le> MAX_SNAPSHOTS \<Longrightarrow>
   length (snapshots (snd (captureSnapshot h now s))) \<le> MAX_SNAPSHOTS"
  by (simp add: captureSnapshot_def Let_def)

lemma monitorTick_state: "snd (monitorTick h now s) = snd (captureSnapshot h now s)"
  by (simp add: monitorTick_def split: prod.splits)

lemma responseTimes_step:
  "responseTimes (step s TrackRequestStart) = responseTimes s"
  "responseTimes (step s (TrackModelCall model success durationMs now)) = responseTimes s"
  "responseTimes (step s (CaptureSnapshot h now)) = responseTimes s"
  "responseTimes (step s (GetCurrentMetrics h now)) = responseTimes s"
  "responseTimes (step s GetHistory) = responseTimes s"
  "responseTimes (step s (GetBestModel t)) = responseTimes s"
  "responseTimes (step s (MonitorTick h now)) = responseTimes s"
  by (simp_all add: trackRequestStart_def trackModelCall_def Let_def captureSnapshot_frame
        getCurrentMetrics_def getHistory_def monitorTick_state)

lemma trackRequestEnd_window:
  "responseTimes (trackRequestEnd d ok now s) =
     (if length (responseTimes s) < 100 then responseTimes s @ [d]
      else tl (responseTimes s @ [d]))"
  by (simp add: trackRequestEnd_def Let_def)

lemma window_push:
  assumes "w = drop (length ds - 100) ds"
  shows "(if length w < 100 then w @ [d] else tl (w @ [d])) =
         drop (length (ds @ [d]) - 100) (ds @ [d])"
proof (cases "length ds < 100")
  case True
  with assms show ?thesis by simp
next
  case False
  then have len: "length w = 100" using assms by simp
  have "tl (w @ [d]) = drop 1 (w @ [d])" by (simp only: One_nat_def drop_Suc drop_0)
  also have "\<dots> = drop 1 (drop (length ds - 100) (ds @ [d]))"
    using assms False by simp
  also have "\<dots> = drop (length (ds @ [d]) - 100) (ds @ [d])"
  proof -
    have "Suc (length ds - 100) = length ds - 99" using False by arith
    then show ?thesis using False by simp
  qed
  finally show ?thesis using len by simp
qed

lemma run_window: "responseTimes (run evs) = drop (length (durations evs) - 100) (durations evs)"
proof (induction evs rule: rev_induct)
  case Nil
  show ?case by (simp add: run_Nil init_def)
next
  case (snoc e evs)
  show ?case
  proof (cases e)
    case (TrackRequestEnd d ok now)
    then show ?thesis
      using window_push [OF snoc.IH, of d]
      by (simp add: run_snoc trackRequestEnd_window durations_append)
  qed (simp_all only: run_snoc responseTimes_step durations_append snoc.IH durations.simps
         append_Nil2)
qed

lemma wf_init: "wf init"
  by (simp add: wf_def init_def)

lemma modify_set:
  "set (modify model f ms) = (\<lambda>(k, v). if k = model then (k, f v) else (k, v)) ` set ms"
  by (simp add: modify_def)

lemma modify_keys: "map fst (modify model f ms) = map fst ms"
  by (induction ms) (auto simp: modify_def)

lemma wf_trackModelCall: "wf s \<Longrightarrow> wf (trackModelCall model success durationMs now s)"
  unfolding wf_def trackModelCall_def Let_def
  by (auto simp: modify_set modify_keys map_of_eq_None_iff split: if_splits)

lemma wf_step: "wf s \<Longrightarrow> wf (step s e)"
proof (cases e)
  case (TrackModelCall model success durationMs now)
  assume "wf s"
  then show ?thesis using TrackModelCall by (simp add: wf_trackModelCall)
next
  case (TrackRequestEnd d ok now)
  assume "wf s"
  then show ?thesis using TrackRequestEnd
    by (simp add: wf_def trackRequestEnd_def Let_def)
qed (simp_all add: wf_def trackRequestStart_def captureSnapshot_frame captureSnapshot_length
       getCurrentMetrics_def getHistory_def monitorTick_state)

lemma wf_run: "wf (run evs)"
  by (induction evs rule: rev_induct) (simp_all add: run_Nil run_snoc wf_init wf_step)

lemma durations_map:
  "durations (map (\<lambda>i. TrackRequestEnd (f i) ok now) xs) = map f xs"
  by (induction xs) simp_all

lemma successRate_bounds:
  "successCalls mm \<le> totalCalls mm \<Longrightarrow> 0 \<le> successRate mm \<and> successRate mm \<le> 1"
  by (simp add: successRate_def divide_le_eq_1)

text \<open>
  Claim C7. The response-time window is a first-in first-out buffer of capacity 100:
  \<open>trackRequestEnd\<close> appends the new duration and, when the window is full, drops
  exactly the oldest sample; after any run the window holds the last 100 recorded
  durations in order. After 101 insertions the window is samples 2 to 101: the newest
  is present and the first occurrence is gone.
\<close>

theorem responseTimes_fifo:
  "responseTimes (trackRequestEnd d ok now s) =
     (if length (responseTimes s) < 100 then responseTimes s @ [d]
      else tl (responseTimes s @ [d])) \<and>
   responseTimes (run evs) = drop (length (durations evs) - 100) (durations evs) \<and>
   (length (durations evs) = 101 \<longrightarrow>
      responseTimes (run evs) = tl (durations evs) \<and>
      last (durations evs) \<in> set (responseTimes (run evs)) \<and>
      (distinct (durations evs) \<longrightarrow> hd (durations evs) \<notin> set (responseTimes (run evs))))"
proof (intro conjI impI)
  show "responseTimes (trackRequestEnd d ok now s) =
     (if length (responseTimes s) < 100 then responseTimes s @ [d]
      else tl (responseTimes s @ [d]))"
    by (rule trackRequestEnd_window)
  show w: "responseTimes (run evs) = drop (length (durations evs) - 100) (durations evs)"
    by (rule run_window)
  assume len: "length (durations evs) = 101"
  then obtain x xs where ds: "durations evs = x # xs" and lxs: "length xs = 100"
    by (cases "durations evs") simp_all
  show tl: "responseTimes (run evs) = tl (durations evs)"
    using w len ds by simp
  show "last (durations evs) \<in> set (responseTimes (run evs))"
    using tl ds lxs by (cases xs) simp_all
  assume "distinct (durations evs)"
  then show "hd (durations evs) \<notin> set (responseTimes (run evs))"
    using tl ds by simp
qed

theorem responseTimes_fifo_witness:
  "length (durations fifo_events) = 101 \<and>
   distinct (durations fifo_events) \<and>
   responseTimes (run fifo_events) = map of_nat [1..<101] \<and>
   (100 :: rat) \<in> set (responseTimes (run fifo_events)) \<and>
   (0 :: rat) \<notin> set (responseTimes (run fifo_events))"
proof -
  have ds: "durations fifo_events = map of_nat [0..<101]"
    by (simp only: fifo_events_def durations_map)
  have len: "length (durations fifo_events) = 101"
    by (simp add: ds)
  have dist: "distinct (durations fifo_events)"
    by (simp add: ds distinct_map inj_on_def)
  have up: "[0..<101] = 0 # [1..<101]"
    by (simp add: upt_conv_Cons)
  have tl: "tl (durations fifo_events) = map of_nat [1..<101]"
    by (simp only: ds up list.map list.sel)
  have hd: "hd (durations fifo_events) = 0" and la: "last (durations fifo_events) = 100"
    by (simp_all add: ds up last_map)
  note fifo = responseTimes_fifo [of 0 True 0 init fifo_events]
  from fifo len have A: "responseTimes (run fifo_events) = tl (durations fifo_events)"
    by blast
  from fifo len have B: "last (durations fifo_events) \<in> set (responseTimes (run fifo_events))"
    by blast
  from fifo len dist
  have C: "hd (durations fifo_events) \<notin> set (responseTimes (run fifo_events))"
    by blast
  from A B C show ?thesis
    unfolding hd la tl using len dist by blast
qed

text \<open>
  Claim C2. After every sequence of engine calls from the initial state, every stored
  provider's success rate lies between 0 and 1, the active request count is not
  negative, the snapshot history holds at most 1000 snapshots and the response-time
  window at most 100 samples.
\<close>

theorem engine_invariants:
  "(\<forall>(m, mm) \<in> set (modelMetrics (run evs)). 0 \<le> successRate mm \<and> successRate mm \<le> 1) \<and>
   0 \<le> activeRequests (run evs) \<and>
   length (snapshots (run evs)) \<le> 1000 \<and>
   length (responseTimes (run evs)) \<le> 100"
  using wf_run [of evs] successRate_bounds
  by (auto simp: wf_def MAX_SNAPSHOTS_def)

theorem engine_invariants_witness:
  "(''x'', \<lparr>totalCalls = 2, successCalls = 1, totalTimeMs = 400, lastUsed = 2\<rparr>)
     \<in> set (modelMetrics (run sample_events)) \<and>
   0 \<le> successRate \<lparr>totalCalls = 2, successCalls = 1, totalTimeMs = 400, lastUsed = 2\<rparr> \<and>
   successRate \<lparr>totalCalls = 2, successCalls = 1, totalTimeMs = 400, lastUsed = 2\<rparr> \<le> 1 \<and>
   activeRequests (run sample_events) = 0 \<and>
   length (responseTimes (run sample_events)) = 1"
proof -
  have m: "modelMetrics (run sample_events) =
      [(''x'', \<lparr>totalCalls = 2, successCalls = 1, totalTimeMs = 400, lastUsed = 2\<rparr>)]"
    by (simp add: sample_events_def run_def init_def trackRequestEnd_def trackModelCall_def
        modify_def Let_def)
  have a: "activeRequests (run sample_events) = 0"
    by (simp add: sample_events_def run_def init_def trackRequestEnd_def trackModelCall_def Let_def)
  have r: "length (responseTimes (run sample_events)) = 1"
    by (simp add: sample_events_def run_def init_def trackRequestEnd_def trackModelCall_def Let_def)
  from engine_invariants [of sample_events] m a r show ?thesis by simp
qed

subsection \<open>Adaptive router\<close>

lemma insert_sorted_hd:
  "hd (insert_sorted cmp x ys) = (if ys = [] \<or> cmp x (hd ys) \<le> 0 then x else hd ys)"
  by (cases ys) simp_all

lemma insert_sorted_nonempty: "insert_sorted cmp x ys \<noteq> []"
  by (cases ys) simp_all

lemma sort_stable_Cons: "sort_stable cmp (x # xs) = insert_sorted cmp x (sort_stable cmp xs)"
  by (simp add: sort_stable_def)

lemma sort_stable_nonempty: "xs \<noteq> [] \<Longrightarrow> sort_stable cmp xs \<noteq> []"
  by (cases xs) (simp_all add: sort_stable_Cons insert_sorted_nonempty)

lemma sort_stable_empty: "sort_stable cmp [] = []"
  by (simp add: sort_stable_def)

lemma sort_stable_first:
  fixes f :: "'a \<Rightarrow> rat"
  assumes "xs \<noteq> []"
  shows "\<exists>pre post. xs = pre @ hd (sort_stable (\<lambda>a b. f b - f a) xs) # post \<and>
           (\<forall>m\<in>set pre. f m < f (hd (sort_stable (\<lambda>a b. f b - f a) xs))) \<and>
           (\<forall>m\<in>set post. f m \<le> f (hd (sort_stable (\<lambda>a b. f b - f a) xs)))"
  using assms
proof (induction xs)
  case Nil
  then show ?case by simp
next
  case (Cons x xs)
  let ?cmp = "\<lambda>a b. f b - f a"
  show ?case
  proof (cases "xs = []")
    case True
    then have h: "hd (sort_stable ?cmp (x # xs)) = x"
      by (simp add: sort_stable_def)
    have "x # xs = [] @ x # [] \<and> (\<forall>m\<in>set []. f m < f x) \<and> (\<forall>m\<in>set []. f m \<le> f x)"
      using True by simp
    then show ?thesis unfolding h by blast
  next
    case False
    let ?b = "hd (sort_stable ?cmp xs)"
    from Cons.IH [OF False] obtain pre post where
      xs: "xs = pre @ ?b # post" and
      pre: "\<forall>m\<in>set pre. f m < f ?b" and
      post: "\<forall>m\<in>set post. f m \<le> f ?b"
      by blast
    have ne: "sort_stable ?cmp xs \<noteq> []"
      using False by (rule sort_stable_nonempty)
    show ?thesis
    proof (cases "f ?b \<le> f x")
      case True
      then have h: "hd (sort_stable ?cmp (x # xs)) = x"
        by (simp add: sort_stable_Cons insert_sorted_hd)
      have "\<forall>m\<in>set xs. f m \<le> f x"
        using xs pre post True by (metis Un_iff less_imp_le order_trans set_ConsD set_append)
      then have "x # xs = [] @ x # xs \<and> (\<forall>m\<in>set []. f m < f x) \<and> (\<forall>m\<in>set xs. f m \<le> f x)"
        by simp
      then show ?thesis unfolding h by blast
    next
      case False
      then have h: "hd (sort_stable ?cmp (x # xs)) = ?b"
        using ne by (simp add: sort_stable_Cons insert_sorted_hd)
      have "x # xs = (x # pre) @ ?b # post" using xs by simp
      moreover have "\<forall>m\<in>set (x # pre). f m < f ?b" using pre False by auto
      ultimately show ?thesis unfolding h using post by blast
    qed
  qed
qed

lemma filter_split:
  assumes "filter P cs = pre' @ b # post'"
  shows "\<exists>pre post. cs = pre @ b # post \<and> P b \<and>
           set pre' = {m \<in> set pre. P m} \<and> set post' = {m \<in> set post. P m}"
  using assms
proof (induction cs arbitrary: pre')
  case Nil
  then show ?case by simp
next
  case (Cons c cs)
  show ?case
  proof (cases "P c")
    case False
    with Cons.prems have "filter P cs = pre' @ b # post'" by simp
    from Cons.IH [OF this] obtain pre post where
      "cs = pre @ b # post" "P b" "set pre' = {m \<in> set pre. P m}"
      "set post' = {m \<in> set post. P m}" by blast
    then have "c # cs = (c # pre) @ b # post \<and> P b \<and>
        set pre' = {m \<in> set (c # pre). P m} \<and> set post' = {m \<in> set post. P m}"
      using False by auto
    then show ?thesis by blast
  next
    case True
    show ?thesis
    proof (cases pre')
      case Nil
      with Cons.prems True have "c = b" "post' = filter P cs" by simp_all
      then have "c # cs = [] @ b # cs \<and> P b \<and> set pre' = {m \<in> set []. P m} \<and>
          set post' = {m \<in> set cs. P m}"
        using True Nil by auto
      then show ?thesis by blast
    next
      case (Cons p ps)
      with Cons.prems True have "p = c" "filter P cs = ps @ b # post'" by simp_all
      from Cons.IH [OF this(2)] obtain pre post where
        "cs = pre @ b # post" "P b" "set ps = {m \<in> set pre. P m}"
        "set post' = {m \<in> set post. P m}" by blast
      then have "c # cs = (c # pre) @ b # post \<and> P b \<and>
          set pre' = {m \<in> set (c # pre). P m} \<and> set post' = {m \<in> set post. P m}"
        using True Cons \<open>p = c\<close> by auto
      then show ?thesis by blast
    qed
  qed
qed

lemma modelsByTask_facts:
  "modelsByTask t \<noteq> []" "[] \<notin> set (modelsByTask t)" "distinct (modelsByTask t)"
  by (cases t; simp add: modelsByTask_def)+

lemma first_hd: "xs \<noteq> [] \<Longrightarrow> first xs = Some (hd xs)"
  by (cases xs) (simp_all add: first_def)

lemma wf_lookup:
  assumes "wf s"
  shows "(map_of (modelMetrics s) m \<noteq> None) = (0 < callsOf s m)"
    and "0 < callsOf s m \<Longrightarrow> routeRate s m = rateOf s m"
proof -
  have *: "0 < totalCalls mm" if "map_of (modelMetrics s) m = Some mm" for mm
    using assms map_of_SomeD [OF that] by (auto simp: wf_def)
  show "(map_of (modelMetrics s) m \<noteq> None) = (0 < callsOf s m)"
    using * by (auto simp: callsOf_def split: option.splits)
  show "0 < callsOf s m \<Longrightarrow> routeRate s m = rateOf s m"
    by (auto simp: callsOf_def routeRate_def rateOf_def successRate_def split: option.splits)
qed

lemma getBestModel_default:
  assumes "\<forall>m\<in>set (modelsByTask t). map_of (modelMetrics s) m = None"
  shows "getBestModel s t = Some (modelsByTask t ! 0)"
proof -
  have "filter (\<lambda>m. map_of (modelMetrics s) m \<noteq> None) (modelsByTask t) = []"
    using assms by (simp add: filter_empty_conv)
  then show ?thesis
    using modelsByTask_facts(1) [of t]
    by (simp add: getBestModel_def Let_def sort_stable_empty first_def or_else_def hd_conv_nth
        split: list.splits)
qed

lemma getBestModel_ranked:
  assumes "\<exists>m\<in>set (modelsByTask t). map_of (modelMetrics s) m \<noteq> None"
  shows "\<exists>pre b post. modelsByTask t = pre @ b # post \<and> getBestModel s t = Some b \<and>
           map_of (modelMetrics s) b \<noteq> None \<and>
           (\<forall>m\<in>set pre. map_of (modelMetrics s) m \<noteq> None \<longrightarrow> routeRate s m < routeRate s b) \<and>
           (\<forall>m\<in>set post. map_of (modelMetrics s) m \<noteq> None \<longrightarrow> routeRate s m \<le> routeRate s b)"
proof -
  let ?P = "\<lambda>m. map_of (modelMetrics s) m \<noteq> None"
  let ?fs = "filter ?P (modelsByTask t)"
  let ?b = "hd (sort_stable (\<lambda>a b. routeRate s b - routeRate s a) ?fs)"
  have ne: "?fs \<noteq> []" using assms by (simp add: filter_empty_conv)
  from sort_stable_first [OF ne, of "routeRate s"] obtain pre' post' where
    fs: "?fs = pre' @ ?b # post'" and
    pre': "\<forall>m\<in>set pre'. routeRate s m < routeRate s ?b" and
    post': "\<forall>m\<in>set post'. routeRate s m \<le> routeRate s ?b"
    by blast
  from filter_split [OF fs] obtain pre post where
    cs: "modelsByTask t = pre @ ?b # post" and Pb: "?P ?b" and
    spre: "set pre' = {m \<in> set pre. ?P m}" and spost: "set post' = {m \<in> set post. ?P m}"
    by blast
  have "?b \<in> set (modelsByTask t)" using cs by (metis in_set_conv_decomp)
  then have "?b \<noteq> []" using modelsByTask_facts(2) [of t] by metis
  then have "getBestModel s t = Some ?b"
    using sort_stable_nonempty [OF ne]
    by (simp add: getBestModel_def Let_def first_hd or_else_def)
  moreover have "\<forall>m\<in>set pre. ?P m \<longrightarrow> routeRate s m < routeRate s ?b"
    using pre' spre by blast
  moreover have "\<forall>m\<in>set post. ?P m \<longrightarrow> routeRate s m \<le> routeRate s ?b"
    using post' spost by blast
  ultimately show ?thesis using cs Pb by blast
qed

text \<open>
  Claim C1. In every state the engine can reach, \<open>getBestModel\<close> returns, among the
  static candidates of the category that have a recorded call, the one with the highest
  success rate, the earlier candidate winning a tie: every recorded candidate before the
  result has a strictly lower rate and every recorded candidate after it has a rate that
  is not higher. Without any recorded candidate it returns the first entry of the static
  list. It always returns a name of the list. With a candidate at 4 successes in 5 calls
  and another at 2 in 5 (and no other recorded candidate) it returns the first of them.
\<close>

theorem getBestModel_best:
  "((\<forall>m\<in>set (modelsByTask t). callsOf (run evs) m = 0) \<longrightarrow>
      getBestModel (run evs) t = Some (modelsByTask t ! 0)) \<and>
   ((\<exists>m\<in>set (modelsByTask t). 0 < callsOf (run evs) m) \<longrightarrow>
      (\<exists>pre b post. modelsByTask t = pre @ b # post \<and>
         getBestModel (run evs) t = Some b \<and> 0 < callsOf (run evs) b \<and>
         (\<forall>m\<in>set pre. 0 < callsOf (run evs) m \<longrightarrow> rateOf (run evs) m < rateOf (run evs) b) \<and>
         (\<forall>m\<in>set post. 0 < callsOf (run evs) m \<longrightarrow> rateOf (run evs) m \<le> rateOf (run evs) b))) \<and>
   (\<exists>m\<in>set (modelsByTask t). getBestModel (run evs) t = Some m) \<and>
   (\<forall>a b ma mb.
      a \<in> set (modelsByTask t) \<and> b \<in> set (modelsByTask t) \<and>
      map_of (modelMetrics (run evs)) a = Some ma \<and> totalCalls ma = 5 \<and> successCalls ma = 4 \<and>
      map_of (modelMetrics (run evs)) b = Some mb \<and> totalCalls mb = 5 \<and> successCalls mb = 2 \<and>
      (\<forall>m\<in>set (modelsByTask t). m \<noteq> a \<and> m \<noteq> b \<longrightarrow> callsOf (run evs) m = 0) \<longrightarrow>
      getBestModel (run evs) t = Some a)"
proof -
  let ?s = "run evs"
  note lk = wf_lookup [OF wf_run, of evs]
  have A: "getBestModel ?s t = Some (modelsByTask t ! 0)"
    if "\<forall>m\<in>set (modelsByTask t). callsOf ?s m = 0"
    using that lk(1) by (intro getBestModel_default) (metis less_numeral_extra(3))
  have B: "\<exists>pre b post. modelsByTask t = pre @ b # post \<and>
         getBestModel ?s t = Some b \<and> 0 < callsOf ?s b \<and>
         (\<forall>m\<in>set pre. 0 < callsOf ?s m \<longrightarrow> rateOf ?s m < rateOf ?s b) \<and>
         (\<forall>m\<in>set post. 0 < callsOf ?s m \<longrightarrow> rateOf ?s m \<le> rateOf ?s b)"
    if "\<exists>m\<in>set (modelsByTask t). 0 < callsOf ?s m"
  proof -
    have "\<exists>m\<in>set (modelsByTask t). map_of (modelMetrics ?s) m \<noteq> None"
      using that lk(1) by blast
    from getBestModel_ranked [OF this] obtain pre b post where
      r: "modelsByTask t = pre @ b # post" "getBestModel ?s t = Some b"
        "map_of (modelMetrics ?s) b \<noteq> None"
        "\<forall>m\<in>set pre. map_of (modelMetrics ?s) m \<noteq> None \<longrightarrow> routeRate ?s m < routeRate ?s b"
        "\<forall>m\<in>set post. map_of (modelMetrics ?s) m \<noteq> None \<longrightarrow> routeRate ?s m \<le> routeRate ?s b"
      by blast
    have b: "0 < callsOf ?s b" using r(3) lk(1) by blast
    have "\<forall>m\<in>set pre. 0 < callsOf ?s m \<longrightarrow> rateOf ?s m < rateOf ?s b"
      using r(4) lk b by metis
    moreover have "\<forall>m\<in>set post. 0 < callsOf ?s m \<longrightarrow> rateOf ?s m \<le> rateOf ?s b"
      using r(5) lk b by metis
    ultimately show ?thesis using r(1,2) b by blast
  qed
  have C: "\<exists>m\<in>set (modelsByTask t). getBestModel ?s t = Some m"
  proof (cases "\<exists>m\<in>set (modelsByTask t). 0 < callsOf ?s m")
    case True
    from B [OF True] show ?thesis by auto
  next
    case False
    then have "getBestModel ?s t = Some (modelsByTask t ! 0)" using A by simp
    then show ?thesis using modelsByTask_facts(1) [of t] by (simp add: hd_conv_nth [symmetric])
  qed
  have D: "getBestModel ?s t = Some a"
    if a: "a \<in> set (modelsByTask t)" and b: "b \<in> set (modelsByTask t)"
      and ma: "map_of (modelMetrics ?s) a = Some ma" "totalCalls ma = 5" "successCalls ma = 4"
      and mb: "map_of (modelMetrics ?s) b = Some mb" "totalCalls mb = 5" "successCalls mb = 2"
      and rest: "\<forall>m\<in>set (modelsByTask t). m \<noteq> a \<and> m \<noteq> b \<longrightarrow> callsOf ?s m = 0"
    for a b ma mb
  proof -
    have ca: "0 < callsOf ?s a" and cb: "0 < callsOf ?s b"
      using ma mb by (simp_all add: callsOf_def)
    have ra: "rateOf ?s a = 4 / 5" and rb: "rateOf ?s b = 2 / 5"
      using ma mb by (simp_all add: rateOf_def successRate_def)
    from B a ca obtain pre w post where
      r: "modelsByTask t = pre @ w # post" "getBestModel ?s t = Some w" "0 < callsOf ?s w"
        "\<forall>m\<in>set pre. 0 < callsOf ?s m \<longrightarrow> rateOf ?s m < rateOf ?s w"
        "\<forall>m\<in>set post. 0 < callsOf ?s m \<longrightarrow> rateOf ?s m \<le> rateOf ?s w"
      by blast
    have "w \<in> set (modelsByTask t)" using r(1) by simp
    then have "w = a \<or> w = b" using rest r(3) by auto
    moreover have "w \<noteq> b"
    proof
      assume "w = b"
      have "a \<noteq> b" using ma mb by auto
      then have "a \<in> set pre \<or> a \<in> set post" using a r(1) \<open>w = b\<close> by auto
      then show False using r(4,5) ca ra rb \<open>w = b\<close> by auto
    qed
    ultimately show ?thesis using r(2) by simp
  qed
  from A B C D show ?thesis by blast
qed

lemma router_metrics:
  "modelMetrics (run router_events) =
     [(''suno-v3.5'', \<lparr>totalCalls = 5, successCalls = 2, totalTimeMs = 1000, lastUsed = 5\<rparr>),
      (''eleven-music-v2'',
       \<lparr>totalCalls = 5, successCalls = 4, totalTimeMs = 1500, lastUsed = 10\<rparr>)]"
  by (simp add: router_events_def run_def init_def trackModelCall_def modify_def Let_def)

theorem getBestModel_best_witness:
  "callsOf (run router_events) ''suno-v3.5'' = 5 \<and>
   rateOf (run router_events) ''suno-v3.5'' = 2 / 5 \<and>
   callsOf (run router_events) ''eleven-music-v2'' = 5 \<and>
   rateOf (run router_events) ''eleven-music-v2'' = 4 / 5 \<and>
   callsOf (run router_events) ''musicgen-large'' = 0 \<and>
   getBestModel (run router_events) Music = Some ''eleven-music-v2'' \<and>
   callsOf (run router_events) ''eleven-v3'' = 0 \<and>
   callsOf (run router_events) ''eleven-v2'' = 0 \<and>
   callsOf (run router_events) ''whisper'' = 0 \<and>
   getBestModel (run router_events) Voice = Some ''eleven-v3''"
proof -
  note best = getBestModel_best [of Music router_events]
  have calls: "callsOf (run router_events) ''suno-v3.5'' = 5"
    "callsOf (run router_events) ''eleven-music-v2'' = 5"
    "callsOf (run router_events) ''musicgen-large'' = 0"
    by (simp_all add: callsOf_def router_metrics)
  have rates: "rateOf (run router_events) ''suno-v3.5'' = 2 / 5"
    "rateOf (run router_events) ''eleven-music-v2'' = 4 / 5"
    by (simp_all add: rateOf_def successRate_def router_metrics)
  have voice: "\<forall>m\<in>set (modelsByTask Voice). callsOf (run router_events) m = 0"
    by (simp add: modelsByTask_def callsOf_def router_metrics)
  have "getBestModel (run router_events) Music = Some ''eleven-music-v2''"
    using best [THEN conjunct2, THEN conjunct2, THEN conjunct2, rule_format,
        of "''eleven-music-v2''" "''suno-v3.5''"
           "\<lparr>totalCalls = 5, successCalls = 4, totalTimeMs = 1500, lastUsed = 10\<rparr>"
           "\<lparr>totalCalls = 5, successCalls = 2, totalTimeMs = 1000, lastUsed = 5\<rparr>"]
    by (simp add: modelsByTask_def callsOf_def router_metrics)
  moreover have "getBestModel (run router_events) Voice = Some ''eleven-v3''"
    using getBestModel_best [of Voice router_events] voice by (simp add: modelsByTask_def)
  moreover have "callsOf (run router_events) ''eleven-v3'' = 0"
    "callsOf (run router_events) ''eleven-v2'' = 0"
    "callsOf (run router_events) ''whisper'' = 0"
    by (simp_all add: callsOf_def router_metrics)
  ultimately show ?thesis using calls rates by blast
qed

subsection \<open>Alerting sink\<close>

lemma slice_negative:
  "0 < k \<Longrightarrow> slice (- int k) xs = drop (length xs - k) xs"
  by (simp add: slice_def Let_def nat_diff_distrib' max_def)

lemma most_recent_drop: "most_recent n xs = drop (length xs - n) xs"
  by (simp add: most_recent_def rev_take)

lemma slice_most_recent: "0 < k \<Longrightarrow> slice (- int k) xs = most_recent k xs"
  by (simp add: slice_negative most_recent_drop)

lemma length_most_recent: "length (most_recent n xs) = min n (length xs)"
  by (simp add: most_recent_drop)






lemma foldl_add_sum:
  "foldl (\<lambda>a sn. a + g sn) (a :: rat) xs = a + sum_list (map g xs)"
  by (induction xs arbitrary: a) (simp_all add: add.assoc)

lemma analyseAndAdapt_cold:
  "length (snapshots s) < 3 \<Longrightarrow> analyseAndAdapt s = []"
  by (simp add: analyseAndAdapt_def Let_def slice_most_recent [of 6, simplified]
      length_most_recent)

lemma analyseAndAdapt_warm:
  assumes "3 \<le> length (snapshots s)"
  shows "analyseAndAdapt s =
     (let recent = most_recent 6 (snapshots s);
          avgCPU = double_mean (map cpuUsage recent);
          avgErrors = average (map (\<lambda>sn. of_nat (errorRate sn)) recent);
          latest = last (snapshots s);
          avgMemPct = jmul (jdiv (Num (of_int (memoryUsedMB latest)))
                                 (of_int (memoryTotalMB latest))) 100;
          low = map fst (filter (\<lambda>(model, m). lowPerforming m) (modelMetrics s))
      in (if jgt avgCPU 85 then [HighCpu avgCPU] else []) @
         (if jgt avgMemPct 85 then [HighMemory avgMemPct] else []) @
         (if avgErrors > 5 then [HighErrorRate avgErrors] else []) @
         (if low \<noteq> [] then [LowPerformingModels low] else []))"
proof -
  let ?recent = "most_recent 6 (snapshots s)"
  have sl: "slice (- 6) (snapshots s) = ?recent"
    using slice_most_recent [of 6 "snapshots s"] by simp
  have len: "\<not> length ?recent < 3" using assms by (simp add: length_most_recent)
  have ne: "?recent \<noteq> []" using len by auto
  have "?recent ! (length ?recent - 1) = last ?recent"
    using ne by (simp add: last_conv_nth)
  also have "\<dots> = last (snapshots s)"
    using assms by (simp add: most_recent_drop)
  finally have la: "?recent ! (length ?recent - 1) = last (snapshots s)" .
  show ?thesis
    unfolding analyseAndAdapt_def sl Let_def
    using len la by (simp add: foldl_add_sum average_def double_mean_def foldl_map)
qed

lemma low_listed:
  assumes "wf s"
  shows "m \<in> set (map fst (filter (\<lambda>(model, mm). lowPerforming mm) (modelMetrics s))) \<longleftrightarrow>
         6 \<le> callsOf s m \<and> rateOf s m < 7 / 10"
proof -
  have d: "distinct (map fst (modelMetrics s))" using assms by (simp add: wf_def)
  have "m \<in> set (map fst (filter (\<lambda>(model, mm). lowPerforming mm) (modelMetrics s))) \<longleftrightarrow>
        (\<exists>mm. (m, mm) \<in> set (modelMetrics s) \<and> lowPerforming mm)"
    by force
  also have "\<dots> \<longleftrightarrow> (\<exists>mm. map_of (modelMetrics s) m = Some mm \<and> lowPerforming mm)"
    using d by simp
  also have "\<dots> \<longleftrightarrow> 6 \<le> callsOf s m \<and> rateOf s m < 7 / 10"
    by (auto simp: callsOf_def rateOf_def lowPerforming_def successRate_def
        split: option.splits)
  finally show ?thesis .
qed

text \<open>
  Claim C8. The low-performing-model warning of the alerting step lists a provider if
  and only if the provider has at least 6 recorded calls and a success rate strictly
  below 0.7; with at least 3 snapshots in the history the warning is written exactly
  when there is such a provider.
\<close>

theorem lowPerforming_warning:
  "(LowPerformingModels ms \<in> set (analyseAndAdapt (run evs)) \<longrightarrow>
      (\<forall>m. m \<in> set ms \<longleftrightarrow> 6 \<le> callsOf (run evs) m \<and> rateOf (run evs) m < 7 / 10)) \<and>
   (3 \<le> length (snapshots (run evs)) \<longrightarrow>
      ((\<exists>ms. LowPerformingModels ms \<in> set (analyseAndAdapt (run evs))) \<longleftrightarrow>
       (\<exists>m. 6 \<le> callsOf (run evs) m \<and> rateOf (run evs) m < 7 / 10)))"
proof -
  let ?s = "run evs"
  let ?low = "map fst (filter (\<lambda>(model, mm). lowPerforming mm) (modelMetrics ?s))"
  note listed = low_listed [OF wf_run, of _ evs]
  have mem: "LowPerformingModels ms \<in> set (analyseAndAdapt ?s) \<longleftrightarrow>
             3 \<le> length (snapshots ?s) \<and> ms = ?low \<and> ?low \<noteq> []" for ms
  proof (cases "3 \<le> length (snapshots ?s)")
    case True
    then show ?thesis by (auto simp: analyseAndAdapt_warm Let_def)
  next
    case False
    then show ?thesis by (simp add: analyseAndAdapt_cold)
  qed
  have ne: "?low \<noteq> [] \<longleftrightarrow> (\<exists>m. 6 \<le> callsOf ?s m \<and> rateOf ?s m < 7 / 10)"
  proof -
    have "?low \<noteq> [] \<longleftrightarrow> (\<exists>m. m \<in> set ?low)"
      by (cases ?low) auto
    also have "\<dots> \<longleftrightarrow> (\<exists>m. 6 \<le> callsOf ?s m \<and> rateOf ?s m < 7 / 10)"
      using listed by blast
    finally show ?thesis .
  qed
  show ?thesis
  proof (intro conjI impI allI)
    fix m
    assume "LowPerformingModels ms \<in> set (analyseAndAdapt ?s)"
    then have "ms = ?low" using mem by blast
    then show "m \<in> set ms \<longleftrightarrow> 6 \<le> callsOf ?s m \<and> rateOf ?s m < 7 / 10"
      using listed by blast
  next
    assume "3 \<le> length (snapshots ?s)"
    then show "(\<exists>ms. LowPerformingModels ms \<in> set (analyseAndAdapt ?s)) \<longleftrightarrow>
       (\<exists>m. 6 \<le> callsOf ?s m \<and> rateOf ?s m < 7 / 10)"
      using mem ne by blast
  qed
qed

lemma low_metrics:
  "modelMetrics (run low_events) =
     [(''x'', \<lparr>totalCalls = 6, successCalls = 4, totalTimeMs = 1200, lastUsed = 6\<rparr>),
      (''y'', \<lparr>totalCalls = 5, successCalls = 0, totalTimeMs = 2500, lastUsed = 11\<rparr>)]"
  by (simp add: low_events_def run_def init_def trackModelCall_def modify_def Let_def
      captureSnapshot_frame)

lemma captureSnapshot_count:
  "length (snapshots (snd (captureSnapshot h now s))) =
     (if length (snapshots s) < MAX_SNAPSHOTS then Suc (length (snapshots s))
      else length (snapshots s))"
  by (simp add: captureSnapshot_def Let_def)

lemma snapshots_frame:
  "snapshots (trackRequestStart s) = snapshots s"
  "snapshots (trackRequestEnd durationMs success now s) = snapshots s"
  "snapshots (trackModelCall model success durationMs now s) = snapshots s"
  by (simp_all add: trackRequestStart_def trackRequestEnd_def trackModelCall_def Let_def)

lemma low_snapshots: "length (snapshots (run low_events)) = 3"
  by (simp add: low_events_def run_def captureSnapshot_count snapshots_frame
      MAX_SNAPSHOTS_def init_def)

theorem lowPerforming_warning_witness:
  "3 \<le> length (snapshots (run low_events)) \<and>
   callsOf (run low_events) ''x'' = 6 \<and> rateOf (run low_events) ''x'' = 2 / 3 \<and>
   callsOf (run low_events) ''y'' = 5 \<and> rateOf (run low_events) ''y'' = 0 \<and>
   (\<exists>ms. LowPerformingModels ms \<in> set (analyseAndAdapt (run low_events)) \<and>
         ''x'' \<in> set ms \<and> ''y'' \<notin> set ms)"
proof -
  have x: "callsOf (run low_events) ''x'' = 6" "rateOf (run low_events) ''x'' = 2 / 3"
    by (simp_all add: callsOf_def rateOf_def successRate_def low_metrics)
  have y: "callsOf (run low_events) ''y'' = 5" "rateOf (run low_events) ''y'' = 0"
    by (simp_all add: callsOf_def rateOf_def successRate_def low_metrics)
  have ex: "\<exists>m. 6 \<le> callsOf (run low_events) m \<and> rateOf (run low_events) m < 7 / 10"
    using x by (intro exI [of _ "''x''"]) simp
  have three: "3 \<le> length (snapshots (run low_events))"
    by (simp add: low_snapshots)
  from lowPerforming_warning [of "[]" low_events] three ex
  obtain ms where ms: "LowPerformingModels ms \<in> set (analyseAndAdapt (run low_events))"
    by blast
  with lowPerforming_warning [of ms low_events]
  have iff: "\<And>m. m \<in> set ms \<longleftrightarrow>
      6 \<le> callsOf (run low_events) m \<and> rateOf (run low_events) m < 7 / 10"
    by blast
  have "''x'' \<in> set ms" unfolding iff x by simp
  moreover have "''y'' \<notin> set ms" unfolding iff y by simp
  ultimately show ?thesis using ms x y three by blast
qed

lemma captureSnapshot_fields:
  "timestamp (fst (captureSnapshot h now s)) = now"
  "cpuUsage (fst (captureSnapshot h now s)) = jdiv (jround (jmul (hostCpuUsage (cpus h)) 10)) 10"
  "memoryUsedMB (fst (captureSnapshot h now s)) =
     round_half_up (of_nat (totalmem h) / (1024 * 1024) - of_nat (freemem h) / (1024 * 1024))"
  "memoryTotalMB (fst (captureSnapshot h now s)) =
     round_half_up (of_nat (totalmem h) / (1024 * 1024))"
  "snap_activeRequests (fst (captureSnapshot h now s)) = activeRequests s"
  "errorRate (fst (captureSnapshot h now s)) = length (errors s)"
  "modelSuccessRates (fst (captureSnapshot h now s)) =
     map (\<lambda>(model, metrics). (model, successRate metrics)) (modelMetrics s)"
  by (simp_all add: captureSnapshot_def Let_def)

lemma captureSnapshot_history:
  "snapshots (snd (captureSnapshot h now s)) =
     (if length (snapshots s) < MAX_SNAPSHOTS
      then snapshots s @ [fst (captureSnapshot h now s)]
      else tl (snapshots s @ [fst (captureSnapshot h now s)]))"
  by (simp add: captureSnapshot_def Let_def)

lemma floor_rat_numeral:
  "\<lfloor>(numeral a :: rat) / numeral b\<rfloor> = numeral a div numeral b"
  using floor_divide_of_int_eq [of "numeral a" "numeral b", where ?'a = rat] by simp

lemma busy_host_readings:
  "jdiv (jround (jmul (hostCpuUsage (cpus busy_host)) 10)) 10 = Num 95"
  "round_half_up (of_nat (totalmem busy_host) / (1024 * 1024) -
                  of_nat (freemem busy_host) / (1024 * 1024)) = 900"
  "round_half_up (of_nat (totalmem busy_host) / (1024 * 1024)) = 1000"
  by (simp_all add: busy_host_def hostCpuUsage_def cpuTotal_def round_half_up_def
      floor_rat_numeral)

lemma alert_errors: "errors (run (take 6 alert_events)) = [0, 0, 0, 0, 0, 0]"
  by (simp add: alert_events_def run_def init_def trackRequestEnd_def Let_def)



lemma bit_length_numeral:
  "bit_length 0 = 0"
  "bit_length (Suc 0) = 1"
  "bit_length 1 = 1"
  "bit_length (numeral Num.One) = 1"
  "bit_length (numeral (Num.Bit0 k)) = Suc (bit_length (numeral k))"
  "bit_length (numeral (Num.Bit1 k)) = Suc (bit_length (numeral k))"
  by (simp_all add: bit_length.simps [of "numeral (Num.Bit0 k)"]
      bit_length.simps [of "numeral (Num.Bit1 k)"] bit_length.simps [of 0]
      bit_length.simps [of "Suc 0"] bit_length.simps [of 1]
      numeral_Bit0_div_2 numeral_Bit1_div_2)

lemmas binary64_eval = binary64_def binary64_pos_def floor_log2_def pow2_def
  round_half_even_def Let_def floor_rat_numeral ceiling_def bit_length_numeral
  double_mean_def dadd_def ddiv_def

lemma binary64_one_tenth: "binary64 (1 / 10) = Num (3602879701896397 / 36028797018963968)"
  by (simp add: binary64_eval)










lemma blind_readings:
  "map cpuUsage (snapshots (run blind_events)) = [NaN, NaN, NaN]"
  by (simp add: blind_events_def run_def init_def captureSnapshot_history
      captureSnapshot_fields MAX_SNAPSHOTS_def blind_host_def hostCpuUsage_def)


subsection \<open>Monitoring timer\<close>

lemma startMonitoring_unfold:
  "startMonitoring (rt, s) =
     (rt\<lparr>intervals := intervals rt @ [nextHandle rt], nextHandle := nextHandle rt + 1\<rparr>,
      s\<lparr>monitorInterval := Some (nextHandle rt)\<rparr>)"
  by (simp add: startMonitoring_def setInterval_def)

lemma lost_timer_step:
  assumes "h \<in> set (intervals (fst p))" "monitorInterval (snd p) \<noteq> Some h"
    "h < nextHandle (fst p)"
  shows "h \<in> set (intervals (fst (lifecycle_step p c))) \<and>
         monitorInterval (snd (lifecycle_step p c)) \<noteq> Some h \<and>
         h < nextHandle (fst (lifecycle_step p c))"
proof (cases p)
  case (Pair rt s)
  show ?thesis
  proof (cases c)
    case StartMonitoring
    then show ?thesis using assms Pair by (simp add: startMonitoring_unfold)
  next
    case StopMonitoring
    then show ?thesis using assms Pair
      by (cases "monitorInterval s") (simp_all add: stopMonitoring_def clearInterval_def)
  qed
qed

lemma lost_timer_run:
  assumes "h \<in> set (intervals (fst p))" "monitorInterval (snd p) \<noteq> Some h"
    "h < nextHandle (fst p)"
  shows "h \<in> set (intervals (fst (foldl lifecycle_step p cs))) \<and>
         monitorInterval (snd (foldl lifecycle_step p cs)) \<noteq> Some h"
  using assms
proof (induction cs arbitrary: p)
  case Nil
  then show ?case by simp
next
  case (Cons c cs)
  from lost_timer_step [OF Cons.prems, of c] Cons.IH [of "lifecycle_step p c"]
  show ?case by simp
qed

lemma stop_halts_single_start:
  "nextHandle rt \<notin> set (intervals rt) \<Longrightarrow>
   nextHandle rt \<notin> set (intervals (fst (stopMonitoring (startMonitoring (rt, s))))) \<and>
   monitorInterval (snd (stopMonitoring (startMonitoring (rt, s)))) = None"
  by (simp add: startMonitoring_unfold stopMonitoring_def clearInterval_def)

text \<open>
  Claim C10. \<open>startMonitoring\<close> overwrites the stored handle without clearing the
  timer it named. After two starts with no stop between them the first timer is still
  registered and its handle is stored nowhere; whatever starts and stops follow, the
  first timer stays registered, so its periodic sampling is never halted.
\<close>

theorem first_timer_never_stopped:
  "monitorInterval (snd (startMonitoring (rt, s))) = Some (nextHandle rt) \<and>
   nextHandle rt \<in> set (intervals (fst (startMonitoring (rt, s)))) \<and>
   monitorInterval (snd (startMonitoring (startMonitoring (rt, s)))) \<noteq> Some (nextHandle rt) \<and>
   nextHandle rt \<in> set (intervals (fst (startMonitoring (startMonitoring (rt, s))))) \<and>
   nextHandle rt \<in>
     set (intervals (fst (foldl lifecycle_step (startMonitoring (startMonitoring (rt, s))) cs))) \<and>
   monitorInterval (snd (foldl lifecycle_step (startMonitoring (startMonitoring (rt, s))) cs))
     \<noteq> Some (nextHandle rt)"
proof -
  let ?p2 = "startMonitoring (startMonitoring (rt, s))"
  have p2: "nextHandle rt \<in> set (intervals (fst ?p2))"
    "monitorInterval (snd ?p2) \<noteq> Some (nextHandle rt)"
    "nextHandle rt < nextHandle (fst ?p2)"
    by (simp_all add: startMonitoring_unfold)
  from lost_timer_run [OF p2, of cs] p2 show ?thesis
    by (simp add: startMonitoring_unfold)
qed

subsection \<open>Snapshot sampler\<close>

text \<open>
  Claim C3, evaluated on the code. A request fails at time 0 and a snapshot is
  captured 61 seconds later with no request ending in between: no failure lies within
  the 60 seconds before the capture, but the snapshot reports an \<open>errorRate\<close> of 1 and
  the stale entry stays in the error window, because only \<open>trackRequestEnd\<close> prunes it.
\<close>

theorem stale_error_counted:
  "failureTimes stale_events = [0] \<and>
   length (filter (\<lambda>t. 61000 - 60000 < t) (failureTimes stale_events)) = 0 \<and>
   errorRate (fst (captureSnapshot busy_host 61000 (run stale_events))) = 1 \<and>
   errors (snd (captureSnapshot busy_host 61000 (run stale_events))) = [0]"
  by (simp add: stale_events_def run_def init_def trackRequestStart_def trackRequestEnd_def
      Let_def captureSnapshot_fields captureSnapshot_frame)

text \<open>
  Claim C5, evaluated on the code. When \<open>os.cpus()\<close> is empty the CPU average is
  0 / 0: the snapshot that is returned and appended carries NaN as \<open>cpuUsage\<close>, not 0.
\<close>

theorem empty_cpu_list_gives_NaN:
  "cpuUsage (fst (captureSnapshot \<lparr>cpus = [], totalmem = t, freemem = f\<rparr> now s)) = NaN \<and>
   cpuUsage (fst (captureSnapshot blind_host 1 init)) = NaN \<and>
   snapshots (snd (captureSnapshot blind_host 1 init)) =
     [fst (captureSnapshot blind_host 1 init)]"
  by (simp add: captureSnapshot_fields captureSnapshot_history blind_host_def hostCpuUsage_def
      init_def MAX_SNAPSHOTS_def)

text \<open>
  Claim C4 as stated fails: \<open>getCurrentMetrics\<close> on the initial state changes the
  state.
\<close>

theorem getCurrentMetrics_changes_state:
  "snd (getCurrentMetrics busy_host 0 init) \<noteq> init"
proof
  assume "snd (getCurrentMetrics busy_host 0 init) = init"
  then have "length (snapshots (snd (getCurrentMetrics busy_host 0 init))) =
             length (snapshots init)"
    by simp
  then show False
    by (simp add: getCurrentMetrics_def captureSnapshot_count init_def MAX_SNAPSHOTS_def)
qed

text \<open>
  Claim C4, amended. \<open>getHistory\<close> leaves the state unchanged. \<open>getCurrentMetrics\<close>
  leaves the per-provider metrics, the active request count, the response-time window,
  the error window and the timer handle unchanged, and appends the snapshot it returns
  to the history, dropping the oldest one when the history already holds 1000.
\<close>

theorem read_only_frame:
  "snd (getHistory s) = s \<and>
   modelMetrics (snd (getCurrentMetrics h now s)) = modelMetrics s \<and>
   activeRequests (snd (getCurrentMetrics h now s)) = activeRequests s \<and>
   responseTimes (snd (getCurrentMetrics h now s)) = responseTimes s \<and>
   errors (snd (getCurrentMetrics h now s)) = errors s \<and>
   monitorInterval (snd (getCurrentMetrics h now s)) = monitorInterval s \<and>
   snapshots (snd (getCurrentMetrics h now s)) =
     (if length (snapshots s) < 1000 then snapshots s @ [fst (getCurrentMetrics h now s)]
      else tl (snapshots s) @ [fst (getCurrentMetrics h now s)])"
proof -
  have "tl (snapshots s @ [x]) = tl (snapshots s) @ [x]" if "\<not> length (snapshots s) < 1000" for x
    using that by (cases "snapshots s") simp_all
  then show ?thesis
    by (simp add: getHistory_def getCurrentMetrics_def captureSnapshot_frame
        captureSnapshot_history MAX_SNAPSHOTS_def)
qed

text \<open>
  Claim C6 as stated fails: \<open>getHistory\<close> has no parameter \<open>n\<close>. On a history of
  three snapshots it returns all three, not the most recent one.
\<close>

theorem getHistory_not_most_recent_1:
  "fst (getHistory (run blind_events)) \<noteq> most_recent 1 (snapshots (run blind_events))"
proof
  assume "fst (getHistory (run blind_events)) = most_recent 1 (snapshots (run blind_events))"
  then have "length (fst (getHistory (run blind_events))) =
             length (most_recent 1 (snapshots (run blind_events)))"
    by simp
  moreover have "length (snapshots (run blind_events)) = 3"
    using arg_cong [OF blind_readings, of length] by simp
  ultimately show False
    using slice_most_recent [of 50 "snapshots (run blind_events)"]
    by (simp add: getHistory_def length_most_recent)
qed

text \<open>
  Claim C6, amended. \<open>getHistory()\<close> returns the most recent 50 snapshots of the
  history (all of them when there are fewer), oldest first, and leaves the state
  unchanged.
\<close>

theorem getHistory_most_recent_50:
  "fst (getHistory s) = most_recent 50 (snapshots s) \<and>
   length (fst (getHistory s)) = min 50 (length (snapshots s)) \<and>
   (\<exists>older. snapshots s = older @ fst (getHistory s)) \<and>
   snd (getHistory s) = s"
proof -
  have r: "fst (getHistory s) = most_recent 50 (snapshots s)"
    using slice_most_recent [of 50 "snapshots s"] by (simp add: getHistory_def)
  have "snapshots s = take (length (snapshots s) - 50) (snapshots s) @ most_recent 50 (snapshots s)"
    by (simp add: most_recent_drop)
  then have "\<exists>older. snapshots s = older @ fst (getHistory s)"
    unfolding r by blast
  then show ?thesis using r by (simp add: length_most_recent getHistory_def)
qed

end
